theory Spec2Isabelle
  imports Main "HOL-Library.AList" "HOL-Library.Sublist"
begin

section \<open>Python values, objects and dictionaries\<close>

text \<open>
  The module \<^verbatim>\<open>intake/gui/source_select.py\<close> handles catalogs and data sources by
  reference. An object is a reference \<open>ref\<close>; its attributes \<^verbatim>\<open>name\<close>, \<^verbatim>\<open>cat\<close> (the
  parent catalog, or \<^verbatim>\<open>None\<close>) and \<^verbatim>\<open>_entries\<close> are read from a store \<open>heap\<close>, which
  the module never writes. Python's \<^verbatim>\<open>==\<close> on objects is equality of references, so the
  parent relation of the store may be cyclic.

  An argument of a method is a dynamically typed value: \<^verbatim>\<open>None\<close>, a \<^verbatim>\<open>str\<close>, an object
  or a \<^verbatim>\<open>list\<close>. Only an object has the attribute \<^verbatim>\<open>name\<close>; reading it from any
  other value raises \<^verbatim>\<open>AttributeError\<close>.
\<close>

type_synonym ref = nat

datatype pyval = PNone | PStr string | PObj ref | PList "pyval list"

datatype error = AttributeError | RuntimeError | StopIteration

record entry =
  container :: string
  target :: ref

record obj =
  name :: string
  cat :: "ref option"
  entries :: "(string \<times> entry) list"

type_synonym heap = "ref \<Rightarrow> obj"

text \<open>
  A \<^verbatim>\<open>dict\<close> (and an \<^verbatim>\<open>OrderedDict\<close>) is an association list in insertion order with
  distinct keys. Assigning to an existing key keeps its position and replaces its value;
  assigning to a new key appends: this is \<^const>\<open>AList.update\<close>. \<^verbatim>\<open>pop\<close> is
  \<^const>\<open>AList.delete\<close>. \<^verbatim>\<open>dict(pairs)\<close> and \<^verbatim>\<open>d.update(other)\<close> assign the pairs from
  left to right.
\<close>

type_synonym odict = "(string \<times> ref) list"

definition dict_update :: "odict \<Rightarrow> (string \<times> ref) list \<Rightarrow> odict" where
  "dict_update d pairs = foldl (\<lambda>acc (k, v). AList.update k v acc) d pairs"

definition dict_of :: "(string \<times> ref) list \<Rightarrow> odict" where
  "dict_of pairs = dict_update [] pairs"

section \<open>\<^verbatim>\<open>coerce_to_list\<close>\<close>

definition coerce_to_list :: "pyval \<Rightarrow> (pyval \<Rightarrow> pyval) option \<Rightarrow> pyval list" where
  "coerce_to_list items preprocess =
     (let items1 = (case items of PList xs \<Rightarrow> xs | _ \<Rightarrow> [items])
      in case preprocess of
           Some f \<Rightarrow> map f items1
         | None \<Rightarrow> items1)"

section \<open>The widget and \<^verbatim>\<open>BaseSelector\<close>\<close>

text \<open>
  The multi-select widget belongs to the widget toolkit. The module uses its parameters
  \<^verbatim>\<open>options\<close> (always a dictionary here) and \<^verbatim>\<open>value\<close> (the selected values) and its
  read-only views \<^verbatim>\<open>labels\<close> (the keys of the options) and \<^verbatim>\<open>values\<close> (their values).
  It is modelled as a passive store; the watchers that the selectors register on it are
  modelled separately, in the section on notification.
\<close>

record widget =
  w_options :: odict
  w_value :: "ref list"

definition w_labels :: "widget \<Rightarrow> string list" where
  "w_labels w = map fst (w_options w)"

definition w_values :: "widget \<Rightarrow> ref list" where
  "w_values w = map snd (w_options w)"


record selector =
  widget :: widget
  preprocess :: "(pyval \<Rightarrow> pyval) option"

definition labels :: "'a selector_scheme \<Rightarrow> string list" where
  "labels s = w_labels (widget s)"

definition items :: "'a selector_scheme \<Rightarrow> ref list" where
  "items s = w_values (widget s)"

definition options :: "'a selector_scheme \<Rightarrow> odict" where
  "options s = w_options (widget s)"

definition selected :: "'a selector_scheme \<Rightarrow> ref list" where
  "selected s = w_value (widget s)"

text \<open>
  \<^verbatim>\<open>_create_options\<close>: \<^verbatim>\<open>OrderedDict(map(lambda x: (x.name, x), coerce_to_list(items,
  self.preprocess)))\<close>. The first element without a \<^verbatim>\<open>name\<close> raises.
\<close>

fun named_pairs :: "heap \<Rightarrow> pyval list \<Rightarrow> error + (string \<times> ref) list" where
  "named_pairs h [] = Inr []"
| "named_pairs h (x # xs) =
     (case x of
        PObj r \<Rightarrow>
          (case named_pairs h xs of
             Inl e \<Rightarrow> Inl e
           | Inr ps \<Rightarrow> Inr ((name (h r), r) # ps))
      | _ \<Rightarrow> Inl AttributeError)"

definition create_options :: "heap \<Rightarrow> 'a selector_scheme \<Rightarrow> pyval \<Rightarrow> error + odict" where
  "create_options h s its =
     (case named_pairs h (coerce_to_list its (preprocess s)) of
        Inl e \<Rightarrow> Inl e
      | Inr ps \<Rightarrow> Inr (dict_of ps))"




section \<open>An example store\<close>

text \<open>
  Two top-level catalogs \<open>A\<close> (object 1) and \<open>B\<close> (object 2), each with a nested
  catalog entry called \<open>sub\<close> (objects 3 and 4); \<open>A\<close> also lists a data source
  (object 5), and \<open>A\<close>'s nested catalog has a nested catalog of its own (object 6).
  Object 7 is another top-level catalog that is also named \<open>A\<close>.
\<close>

definition heap0 :: heap where
  "heap0 r =
     (if r = 1 then
        \<lparr>name = ''A'', cat = None,
         entries = [(''sub'', \<lparr>container = ''catalog'', target = 3\<rparr>),
                    (''data'', \<lparr>container = ''dataframe'', target = 5\<rparr>)]\<rparr>
      else if r = 2 then
        \<lparr>name = ''B'', cat = None,
         entries = [(''sub'', \<lparr>container = ''catalog'', target = 4\<rparr>)]\<rparr>
      else if r = 3 then
        \<lparr>name = ''sub'', cat = Some 1,
         entries = [(''deep'', \<lparr>container = ''catalog'', target = 6\<rparr>)]\<rparr>
      else if r = 4 then \<lparr>name = ''sub'', cat = Some 2, entries = []\<rparr>
      else if r = 5 then \<lparr>name = ''data'', cat = Some 1, entries = []\<rparr>
      else if r = 6 then \<lparr>name = ''deep'', cat = Some 3, entries = []\<rparr>
      else \<lparr>name = ''A'', cat = None, entries = []\<rparr>)"

definition sel0 :: selector where
  "sel0 = \<lparr>widget = \<lparr>w_options = [(''A'', 1)], w_value = [1]\<rparr>, preprocess = None\<rparr>"

section \<open>\<^verbatim>\<open>BaseSelector.add\<close>\<close>

text \<open>
  \<^verbatim>\<open>f'{k}_{count}'\<close>: the label, an underscore and the decimal digits of the counter.
\<close>

fun digits :: "nat \<Rightarrow> string" where
  "digits n =
     (if n < 10 then [''0123456789'' ! n]
      else digits (n div 10) @ [''0123456789'' ! (n mod 10)])"

definition fmt_label :: "string \<Rightarrow> nat \<Rightarrow> string" where
  "fmt_label k count = k @ ''_'' @ digits count"

text \<open>
  \<^verbatim>\<open>count = 0; while f'{k}_{count}' in self.labels: count += 1\<close>, entered with the
  current counter.
\<close>

function fresh_count :: "string list \<Rightarrow> string \<Rightarrow> nat \<Rightarrow> nat" where
  "fresh_count lbls k count =
     (if fmt_label k count \<in> set lbls then fresh_count lbls k (Suc count) else count)"
  by pat_completeness auto

text \<open>
  The loop \<^verbatim>\<open>for k, v in options.items()\<close> runs over the \<^verbatim>\<open>OrderedDict\<close> that its body
  changes (\<^verbatim>\<open>options.pop(k)\<close>, then \<^verbatim>\<open>options[f'{k}_{count}'] = v\<close>). The iterator of an
  \<^verbatim>\<open>OrderedDict\<close> holds the key it will yield next and, when asked for it, raises
  \<^verbatim>\<open>RuntimeError\<close> (\<^verbatim>\<open>OrderedDict mutated during iteration\<close>) if the dictionary has been
  changed since the iterator was made; when no key is left it just stops. So a pass that
  renames an item ends the loop: normally when the item was the last one, with
  \<^verbatim>\<open>RuntimeError\<close> when items are still pending. Up to that pass the dictionary is
  untouched, so the pending pairs are a suffix of the created options. \<^verbatim>\<open>self.labels\<close>
  and \<^verbatim>\<open>self.items\<close> are the widget's, which the loop does not change.
\<close>

fun add_loop ::
  "string list \<Rightarrow> ref list \<Rightarrow> (string \<times> ref) list \<Rightarrow> odict \<Rightarrow> error + odict" where
  "add_loop lbls its [] opts = Inr opts"
| "add_loop lbls its ((k, v) # pending) opts =
     (if k \<in> set lbls \<and> v \<notin> set its
      then (let count = fresh_count lbls k 0;
                opts1 = AList.update (fmt_label k count) v (AList.delete k opts)
            in if pending = [] then Inr opts1 else Inl RuntimeError)
      else add_loop lbls its pending opts)"

definition add :: "heap \<Rightarrow> pyval \<Rightarrow> 'a selector_scheme \<Rightarrow> error + 'a selector_scheme" where
  "add h its s =
     (case create_options h s its of
        Inl e \<Rightarrow> Inl e
      | Inr opts \<Rightarrow>
          (case add_loop (labels s) (items s) opts opts of
             Inl e \<Rightarrow> Inl e
           | Inr opts1 \<Rightarrow>
               Inr (s\<lparr>widget := (widget s)
                      \<lparr>w_options := dict_update (w_options (widget s)) opts1\<rparr>
                      \<lparr>w_value := take 1 (map snd opts1)\<rparr>\<rparr>)))"

section \<open>\<^verbatim>\<open>CatSelector\<close>\<close>

text \<open>
  Python strings are sequences of code points; here they are their UTF-8 bytes, on which
  concatenation, \<^verbatim>\<open>in\<close> and \<^verbatim>\<open>split\<close> give the same results. \<open>down\<close> is the box
  drawing U+2502, \<open>right\<close> is U+2514 U+2500 U+2500.
\<close>

definition down :: string where
  "down = [CHR 0xE2, CHR 0x94, CHR 0x82]"

definition right :: string where
  "right = [CHR 0xE2, CHR 0x94, CHR 0x94, CHR 0xE2, CHR 0x94, CHR 0x80, CHR 0xE2, CHR 0x94, CHR 0x80]"

text \<open>\<^verbatim>\<open>sep in s\<close> and \<^verbatim>\<open>s.split(sep)[0]\<close>, for a separator that is not empty.\<close>

fun contains :: "string \<Rightarrow> string \<Rightarrow> bool" where
  "contains sep [] = (sep = [])"
| "contains sep (c # cs) = (prefix sep (c # cs) \<or> contains sep cs)"

fun split_head :: "string \<Rightarrow> string \<Rightarrow> string" where
  "split_head sep [] = []"
| "split_head sep (c # cs) = (if prefix sep (c # cs) then [] else c # split_head sep cs)"

record event =
  new :: "ref list"






text \<open>\<^verbatim>\<open>get_children\<close>: the entries of the parent whose container is a catalog, called.\<close>

definition get_children :: "heap \<Rightarrow> ref \<Rightarrow> ref list" where
  "get_children h parent =
     map (\<lambda>(key, e). target e) [(key, e) \<leftarrow> entries (h parent). container e = ''catalog'']"

text \<open>\<^verbatim>\<open>list.insert(i, x)\<close> for \<open>i \<ge> 0\<close>: beyond the end it appends.\<close>

definition insert_at :: "nat \<Rightarrow> 'a \<Rightarrow> 'a list \<Rightarrow> 'a list" where
  "insert_at i x xs = take i xs @ x # drop i xs"

text \<open>
  \<^verbatim>\<open>for i, child in enumerate(children): old.insert(index+i+1, ...)\<close>, entered with the
  position \<open>index + i + 1\<close> of the next insertion.
\<close>

fun insert_children :: "nat \<Rightarrow> (string \<times> ref) list \<Rightarrow> (string \<times> ref) list \<Rightarrow> (string \<times> ref) list"
  where
  "insert_children pos [] old = old"
| "insert_children pos (c # cs) old = insert_children (Suc pos) cs (insert_at pos c old)"

text \<open>
  \<^verbatim>\<open>expand_nested\<close>. \<^verbatim>\<open>event.obj\<close> is the selector's widget. \<^verbatim>\<open>next(...)\<close> over a
  generator that yields nothing raises \<^verbatim>\<open>StopIteration\<close>.
\<close>

definition expand_nested ::
  "heap \<Rightarrow> event \<Rightarrow> 'a selector_scheme \<Rightarrow> error + 'a selector_scheme" where
  "expand_nested h ev s =
     (case new ev of
        [] \<Rightarrow> Inr s
      | got # _ \<Rightarrow>
          (let old = w_options (widget s) in
           case find (\<lambda>(k, v). v = got) old of
             None \<Rightarrow> Inl StopIteration
           | Some (nm, _) \<Rightarrow>
               (let index = length (takeWhile (\<lambda>(k, v). v \<noteq> got) old);
                    pre = (if contains right nm
                           then split_head right nm @ down @ '' '' @ right
                           else right);
                    children = get_children h got;
                    old1 = insert_children (index + 1)
                             (map (\<lambda>child. (pre @ '' '' @ name (h child), child)) children) old
                in Inr (s\<lparr>widget := (widget s)\<lparr>w_options := dict_of old1\<rparr>\<rparr>))))"

text \<open>
  \<^verbatim>\<open>collapse_nested\<close>. The variables of the \<^verbatim>\<open>while\<close> loop are a record; \<open>passes\<close>
  counts the executions of the loop body and is not a variable of the source.
  \<^verbatim>\<open>parents_to_remove\<close> starts as the list \<^verbatim>\<open>cats\<close> and is a set afterwards; the loop
  only tests membership in it and whether it is empty, so it is a set throughout.
\<close>

record loop_state =
  children :: "ref list"
  removed :: "ref set"
  nested :: "ref list"
  parents_to_remove :: "ref set"
  nestedness :: int
  passes :: nat

definition parent_in :: "heap \<Rightarrow> ref set \<Rightarrow> ref \<Rightarrow> bool" where
  "parent_in h ps c = (case cat (h c) of None \<Rightarrow> False | Some p \<Rightarrow> p \<in> ps)"

definition collapse_body :: "heap \<Rightarrow> ref set \<Rightarrow> loop_state \<Rightarrow> loop_state" where
  "collapse_body h parents st =
     (let children1 = children st @ [c \<leftarrow> nested st. parent_in h (parents_to_remove st) c];
          removed1 = removed st \<union> parents_to_remove st;
          nested1 = [c \<leftarrow> nested st. c \<notin> set children1];
          parents_to_remove1 = {c \<in> set children1. c \<in> parents - removed1}
      in \<lparr>children = children1, removed = removed1, nested = nested1,
          parents_to_remove = parents_to_remove1, nestedness = nestedness st - 1,
          passes = Suc (passes st)\<rparr>)"

function collapse_while :: "heap \<Rightarrow> ref set \<Rightarrow> loop_state \<Rightarrow> loop_state" where
  "collapse_while h parents st =
     (if parents_to_remove st \<noteq> {} \<and> nestedness st > 0
      then collapse_while h parents (collapse_body h parents st)
      else st)"
  by pat_completeness auto
termination
  by (relation "measure (\<lambda>(h, parents, st). nat (nestedness st))")
     (auto simp: collapse_body_def Let_def)

definition collapse_init :: "heap \<Rightarrow> ref list \<Rightarrow> ref list \<Rightarrow> int \<Rightarrow> loop_state" where
  "collapse_init h old cats max_nestedness =
     \<lparr>children = [], removed = {},
      nested = [c \<leftarrow> old. cat (h c) \<noteq> None],
      parents_to_remove = set cats, nestedness = max_nestedness, passes = 0\<rparr>"

definition collapse_parents :: "heap \<Rightarrow> ref list \<Rightarrow> ref set" where
  "collapse_parents h old = set (List.map_filter (\<lambda>c. cat (h c)) [c \<leftarrow> old. cat (h c) \<noteq> None])"

definition collapse_result :: "heap \<Rightarrow> ref list \<Rightarrow> ref list \<Rightarrow> int \<Rightarrow> loop_state" where
  "collapse_result h old cats max_nestedness =
     collapse_while h (collapse_parents h old) (collapse_init h old cats max_nestedness)"



text \<open>
  What \<^verbatim>\<open>remove_selected\<close> collapses, stated on the store: \<open>nested_under h vals sel d x\<close>
  holds when \<open>x\<close> is an option value and following the \<^verbatim>\<open>cat\<close> links from \<open>x\<close> reaches
  a catalog of \<open>sel\<close> in at most \<open>d\<close> links, every catalog passed on the way being an
  option value itself. \<open>reaches\<close> is the same without the condition on the catalogs
  passed on the way.
\<close>

fun nested_under :: "heap \<Rightarrow> ref set \<Rightarrow> ref set \<Rightarrow> nat \<Rightarrow> ref \<Rightarrow> bool" where
  "nested_under h vals sel 0 x = False"
| "nested_under h vals sel (Suc d) x =
     (x \<in> vals \<and> (case cat (h x) of None \<Rightarrow> False
                  | Some p \<Rightarrow> p \<in> sel \<or> nested_under h vals sel d p))"


text \<open>
  The invariant of the loop of \<^verbatim>\<open>collapse_nested\<close> after \<open>n\<close> passes, for the option
  values \<open>V\<close> and the catalogs \<open>sel\<close> the loop was started with.
\<close>

definition collapse_inv ::
  "heap \<Rightarrow> ref set \<Rightarrow> ref set \<Rightarrow> nat \<Rightarrow> loop_state \<Rightarrow> bool" where
  "collapse_inv h V sel n st \<longleftrightarrow>
     set (children st) = {x. nested_under h V sel n x}
     \<and> set (nested st) = {x \<in> V. cat (h x) \<noteq> None \<and> \<not> nested_under h V sel n x}
     \<and> (\<forall>x p. x \<in> V \<and> cat (h x) = Some p \<and> p \<in> removed st \<longrightarrow> nested_under h V sel n x)
     \<and> (\<forall>x p. x \<in> V \<and> cat (h x) = Some p \<longrightarrow>
           (p \<in> parents_to_remove st \<union> removed st \<longleftrightarrow> nested_under h V sel (Suc n) x))"

section \<open>Notification\<close>













section \<open>Example selectors\<close>



definition sel_expanded :: selector where
  "sel_expanded =
     \<lparr>widget = \<lparr>w_options = [(''A'', 1), (right @ '' sub'', 3), (''B'', 2)], w_value = [2]\<rparr>,
      preprocess = None\<rparr>"



definition heap_cyclic :: heap where
  "heap_cyclic r =
     (if r = 1 then \<lparr>name = ''one'', cat = Some 2, entries = []\<rparr>
      else \<lparr>name = ''two'', cat = Some 1, entries = []\<rparr>)"

section \<open>Properties\<close>

subsection \<open>Dictionaries\<close>

lemma dict_update_snoc:
  "dict_update d (ps @ [(k, v)]) = AList.update k v (dict_update d ps)"
  by (simp add: dict_update_def)

lemma distinct_dict_update:
  "distinct (map fst d) \<Longrightarrow> distinct (map fst (dict_update d ps))"
  by (induction ps rule: rev_induct)
     (auto simp: dict_update_def intro: AList.distinct_update)

lemma distinct_dict_of: "distinct (map fst (dict_of ps))"
  by (simp add: dict_of_def distinct_dict_update)



lemma dict_of_distinct_id:
  "distinct (map fst ps) \<Longrightarrow> dict_of ps = ps"
proof (induction ps rule: rev_induct)
  case Nil
  show ?case by (simp add: dict_of_def dict_update_def)
next
  case (snoc p ps)
  obtain k v where p: "p = (k, v)" by (cases p)
  from snoc.prems have d: "distinct (map fst ps)" and nk: "k \<notin> fst ` set ps"
    by (auto simp: p)
  have upd: "AList.update k v ps = ps @ [(k, v)]" using nk
    by (induction ps) auto
  show ?case
    unfolding p dict_of_def dict_update_snoc
    using snoc.IH [OF d] upd by (simp add: dict_of_def)
qed

subsection \<open>\<^verbatim>\<open>coerce_to_list\<close>\<close>

text \<open>
  Claim C9. \<^verbatim>\<open>coerce_to_list\<close> always returns a list. A list argument is returned with
  its elements, in order, each mapped by \<^verbatim>\<open>preprocess\<close> when one is given; every other
  argument (\<^verbatim>\<open>None\<close>, a string, an object) becomes the one-element list holding it,
  mapped by \<^verbatim>\<open>preprocess\<close> when one is given.
\<close>

theorem coerce_to_list_returns_list:
  "coerce_to_list (PList xs) None = xs
   \<and> coerce_to_list (PList xs) (Some f) = map f xs
   \<and> coerce_to_list PNone None = [PNone]
   \<and> coerce_to_list PNone (Some f) = [f PNone]
   \<and> coerce_to_list (PStr t) None = [PStr t]
   \<and> coerce_to_list (PStr t) (Some f) = [f (PStr t)]
   \<and> coerce_to_list (PObj r) None = [PObj r]
   \<and> coerce_to_list (PObj r) (Some f) = [f (PObj r)]"
  by (simp add: coerce_to_list_def)

subsection \<open>The derived views\<close>


subsection \<open>\<^verbatim>\<open>remove\<close>\<close>


subsection \<open>Setting \<^verbatim>\<open>items\<close> and \<^verbatim>\<open>options\<close>\<close>


lemma named_pairs_Inr_objects:
  "named_pairs h xs = Inr ps \<Longrightarrow> xs = map (PObj \<circ> snd) ps"
proof (induction xs arbitrary: ps)
  case Nil
  then show ?case by simp
next
  case (Cons x xs)
  then show ?case
    by (cases x) (auto split: sum.splits)
qed






subsection \<open>\<^verbatim>\<open>add\<close>\<close>

text \<open>
  The decimal digits determine the number, so the labels \<open>k_0\<close>, \<open>k_1\<close>, ... are
  pairwise different and the search of \<^verbatim>\<open>add\<close> for a label that is not taken ends: it
  returns the least counter, from the one it starts with, whose label is free.
\<close>

declare digits.simps [simp del]

lemma digits_nonempty: "digits n \<noteq> []"
  by (subst digits.simps) simp

lemma digit_char_inj:
  "a < 10 \<Longrightarrow> b < 10 \<Longrightarrow> ''0123456789'' ! a = ''0123456789'' ! b \<Longrightarrow> a = b"
  by (subst (asm) nth_eq_iff_index_eq) simp_all

lemma digits_inj: "digits n = digits m \<Longrightarrow> n = m"
proof (induction n arbitrary: m rule: digits.induct)
  case (1 n)
  show ?case
  proof (cases "n < 10")
    case True
    show ?thesis
    proof (cases "m < 10")
      case m: True
      from "1.prems" True m have "''0123456789'' ! n = ''0123456789'' ! m"
        by (simp add: digits.simps [of n] digits.simps [of m])
      with True m show ?thesis by (rule digit_char_inj)
    next
      case m: False
      from "1.prems" True m show ?thesis
        using digits_nonempty [of "m div 10"]
        by (simp add: digits.simps [of n] digits.simps [of m])
    qed
  next
    case False
    show ?thesis
    proof (cases "m < 10")
      case m: True
      from "1.prems" False m show ?thesis
        using digits_nonempty [of "n div 10"]
        by (simp add: digits.simps [of n] digits.simps [of m])
    next
      case m: False
      from "1.prems" False m
      have a: "digits (n div 10) = digits (m div 10)"
        and b: "''0123456789'' ! (n mod 10) = ''0123456789'' ! (m mod 10)"
        by (simp_all add: digits.simps [of n] digits.simps [of m])
      from "1.IH" [OF False a] have c: "n div 10 = m div 10" .
      have "n mod 10 = m mod 10"
        by (rule digit_char_inj [OF _ _ b]) simp_all
      with c show ?thesis
        by (metis div_mult_mod_eq)
    qed
  qed
qed

lemma fmt_label_inj: "fmt_label k n = fmt_label k m \<Longrightarrow> n = m"
  by (simp add: fmt_label_def digits_inj)

lemma finite_taken: "finite {n. count \<le> n \<and> fmt_label k n \<in> set lbls}"
proof -
  have "inj (fmt_label k)" by (rule injI) (rule fmt_label_inj)
  then have "finite (fmt_label k -` set lbls)"
    by (intro finite_vimageI) simp_all
  then show ?thesis
    by (rule rev_finite_subset) auto
qed

termination fresh_count
proof (relation "measure (\<lambda>(lbls, k, count). card {n. count \<le> n \<and> fmt_label k n \<in> set lbls})")
  show "wf (measure (\<lambda>(lbls, k, count). card {n. count \<le> n \<and> fmt_label k n \<in> set lbls}))"
    by simp
next
  fix lbls :: "string list" and k :: string and count :: nat
  assume a: "fmt_label k count \<in> set lbls"
  have "count \<in> {n. count \<le> n \<and> fmt_label k n \<in> set lbls}"
    and "count \<notin> {n. Suc count \<le> n \<and> fmt_label k n \<in> set lbls}"
    and "{n. Suc count \<le> n \<and> fmt_label k n \<in> set lbls}
          \<subseteq> {n. count \<le> n \<and> fmt_label k n \<in> set lbls}"
    using a by auto
  then have "{n. Suc count \<le> n \<and> fmt_label k n \<in> set lbls}
          \<subset> {n. count \<le> n \<and> fmt_label k n \<in> set lbls}"
    by blast
  then have "card {n. Suc count \<le> n \<and> fmt_label k n \<in> set lbls}
          < card {n. count \<le> n \<and> fmt_label k n \<in> set lbls}"
    by (rule psubset_card_mono [OF finite_taken])
  then show "((lbls, k, Suc count), (lbls, k, count))
        \<in> measure (\<lambda>(lbls, k, count). card {n. count \<le> n \<and> fmt_label k n \<in> set lbls})"
    by simp
qed

declare fresh_count.simps [simp del]

lemma fresh_count_least:
  "fmt_label k (fresh_count lbls k c) \<notin> set lbls
   \<and> c \<le> fresh_count lbls k c
   \<and> (\<forall>n. c \<le> n \<and> n < fresh_count lbls k c \<longrightarrow> fmt_label k n \<in> set lbls)"
proof (induction lbls k c rule: fresh_count.induct)
  case (1 lbls k count)
  show ?case
  proof (cases "fmt_label k count \<in> set lbls")
    case True
    then have eq: "fresh_count lbls k count = fresh_count lbls k (Suc count)"
      by (subst fresh_count.simps) simp
    from "1.IH" [OF True]
    have a: "fmt_label k (fresh_count lbls k (Suc count)) \<notin> set lbls"
      and b: "Suc count \<le> fresh_count lbls k (Suc count)"
      and c: "\<And>n. Suc count \<le> n \<Longrightarrow> n < fresh_count lbls k (Suc count)
                 \<Longrightarrow> fmt_label k n \<in> set lbls"
      by auto
    have "fmt_label k n \<in> set lbls"
      if "count \<le> n" and "n < fresh_count lbls k (Suc count)" for n
      using that True c [of n] by (cases "n = count") auto
    with a b show ?thesis unfolding eq by auto
  next
    case False
    then have "fresh_count lbls k count = count"
      by (subst fresh_count.simps) simp
    with False show ?thesis by auto
  qed
qed

text \<open>
  The loop of \<^verbatim>\<open>add\<close> returns the created options unchanged when no item clashes,
  returns them with the last item renamed when only the last item clashes, and raises
  when an item before the last clashes. An item added on its own whose name is taken by
  another object is stored under the first free label \<open>name_n\<close>, after the options
  already shown, and becomes the selection.
\<close>

lemma update_new_key:
  "k \<notin> fst ` set al \<Longrightarrow> AList.update k v al = al @ [(k, v)]"
  by (induction al) auto

lemma add_loop_no_clash:
  "\<forall>(k, v) \<in> set pending. k \<notin> set lbls \<or> v \<in> set its
     \<Longrightarrow> add_loop lbls its pending opts = Inr opts"
  by (induction pending) auto

lemma add_loop_last_clash:
  assumes "\<forall>(k, v) \<in> set ps. k \<notin> set lbls \<or> v \<in> set its"
    and "k \<in> set lbls" and "v \<notin> set its"
  shows "add_loop lbls its (ps @ [(k, v)]) opts
           = Inr (AList.update (fmt_label k (fresh_count lbls k 0)) v (AList.delete k opts))"
  using assms by (induction ps) auto

lemma add_loop_earlier_clash:
  assumes "\<forall>(k, v) \<in> set ps. k \<notin> set lbls \<or> v \<in> set its"
    and "k \<in> set lbls" and "v \<notin> set its" and "rest \<noteq> []"
  shows "add_loop lbls its (ps @ (k, v) # rest) opts = Inl RuntimeError"
  using assms by (induction ps) auto

lemma add_single_renamed:
  assumes co: "coerce_to_list its (preprocess s) = [PObj r]"
    and k: "name (h r) \<in> set (labels s)"
    and v: "r \<notin> set (items s)"
    and n: "n = fresh_count (labels s) (name (h r)) 0"
  shows "\<exists>s'. add h its s = Inr s'
           \<and> options s' = options s @ [(fmt_label (name (h r)) n, r)]
           \<and> fmt_label (name (h r)) n \<notin> set (labels s)
           \<and> (\<forall>m < n. fmt_label (name (h r)) m \<in> set (labels s))
           \<and> selected s' = [r]"
proof -
  let ?k = "name (h r)"
  from fresh_count_least [of ?k "labels s" 0] n
  have free: "fmt_label ?k n \<notin> set (labels s)"
    and least: "\<forall>m < n. fmt_label ?k m \<in> set (labels s)"
    by auto
  have c: "create_options h s its = Inr [(?k, r)]"
    by (simp add: create_options_def co dict_of_def dict_update_def)
  have l: "add_loop (labels s) (items s) [(?k, r)] [(?k, r)] = Inr [(fmt_label ?k n, r)]"
    using k v n by (simp add: Let_def)
  from free have "fmt_label ?k n \<notin> fst ` set (w_options (widget s))"
    by (simp add: labels_def w_labels_def)
  then have u: "dict_update (w_options (widget s)) [(fmt_label ?k n, r)]
                  = w_options (widget s) @ [(fmt_label ?k n, r)]"
    by (simp add: dict_update_def update_new_key)
  show ?thesis
    using free least by (simp add: add_def c l u options_def selected_def del: add_loop.simps)
qed

text \<open>
  Claim C1. The widget shows catalog 1 under the label \<open>A\<close>. Adding the list of
  catalog 7, also named \<open>A\<close>, and catalog 2 renames the first item while the second is
  still pending: the next step of the iteration over the changed \<^verbatim>\<open>OrderedDict\<close> raises
  \<^verbatim>\<open>RuntimeError\<close>, \<^verbatim>\<open>add\<close> does not complete and nothing is stored. With the same
  two items in the other order the renamed item is the last one and \<^verbatim>\<open>add\<close> stores it
  under \<open>A_0\<close>.
\<close>

theorem add_rename_before_last_raises:
  "labels sel0 = [''A'']
   \<and> items sel0 = [1]
   \<and> name (heap0 7) = ''A''
   \<and> add heap0 (PList [PObj 7, PObj 2]) sel0 = Inl RuntimeError
   \<and> add heap0 (PList [PObj 2, PObj 7]) sel0
       = Inr \<lparr>widget = \<lparr>w_options = [(''A'', 1), (''B'', 2), (''A_0'', 7)], w_value = [2]\<rparr>,
              preprocess = None\<rparr>"
  by (simp add: add_def create_options_def coerce_to_list_def sel0_def heap0_def dict_of_def
        dict_update_def labels_def items_def w_labels_def w_values_def Let_def
        fresh_count.simps [of _ _ 0] fmt_label_def digits.simps [of 0])

subsection \<open>\<^verbatim>\<open>collapse_nested\<close> and \<^verbatim>\<open>remove_selected\<close>\<close>

text \<open>
  The loop of \<^verbatim>\<open>collapse_nested\<close> is a breadth-first walk down the options: after \<open>n\<close>
  passes \<^verbatim>\<open>children\<close> holds the option values nested at most \<open>n\<close> levels under the
  catalogs given, \<^verbatim>\<open>nested\<close> the other option values that have a parent, and the
  parents whose children are collected are those in \<^verbatim>\<open>removed\<close> or
  \<^verbatim>\<open>parents_to_remove\<close>.
\<close>

declare collapse_while.simps [simp del]

lemma collapse_while_passes:
  "passes (collapse_while h ps st) \<le> passes st + nat (nestedness st)"
proof (induction h ps st rule: collapse_while.induct)
  case (1 h ps st)
  show ?case
  proof (cases "parents_to_remove st \<noteq> {} \<and> nestedness st > 0")
    case True
    then have "collapse_while h ps st = collapse_while h ps (collapse_body h ps st)"
      by (subst collapse_while.simps) simp
    moreover have "passes (collapse_body h ps st) = Suc (passes st)"
      and "nestedness (collapse_body h ps st) = nestedness st - 1"
      by (simp_all add: collapse_body_def Let_def)
    moreover have "Suc (nat (nestedness st - 1)) = nat (nestedness st)"
      using True by linarith
    ultimately show ?thesis using "1.IH" [OF True] by simp
  next
    case False
    then have "collapse_while h ps st = st"
      by (subst collapse_while.simps) auto
    then show ?thesis by simp
  qed
qed

lemma nested_under_mono:
  "nested_under h V sel d x \<Longrightarrow> nested_under h V sel (Suc d) x"
proof (induction d arbitrary: x)
  case 0
  then show ?case by simp
next
  case (Suc d)
  from Suc.prems obtain p where xv: "x \<in> V" and p: "cat (h x) = Some p"
    and q: "p \<in> sel \<or> nested_under h V sel d p"
    by (auto split: option.splits)
  from q Suc.IH have "p \<in> sel \<or> nested_under h V sel (Suc d) p" by blast
  with xv p show ?case
    by (subst nested_under.simps) (simp del: nested_under.simps)
qed

lemma nested_under_stable:
  assumes "\<And>x. nested_under h V sel (Suc n) x \<Longrightarrow> nested_under h V sel n x"
  shows "nested_under h V sel (n + k) x \<Longrightarrow> nested_under h V sel n x"
proof (induction k arbitrary: x)
  case 0
  then show ?case by simp
next
  case (Suc k)
  from Suc.prems have "nested_under h V sel (Suc (n + k)) x" by simp
  then have "x \<in> V" and
    "case cat (h x) of None \<Rightarrow> False | Some p \<Rightarrow> p \<in> sel \<or> nested_under h V sel (n + k) p"
    by simp_all
  then have "nested_under h V sel (Suc n) x"
    using Suc.IH by (auto split: option.splits)
  then show ?case by (rule assms)
qed

lemma collapse_parents_iff:
  "p \<in> collapse_parents h old \<longleftrightarrow> (\<exists>x \<in> set old. cat (h x) = Some p)"
  by (force simp: collapse_parents_def List.map_filter_def image_iff)

lemma collapse_inv_init:
  "collapse_inv h (set old) (set cats) 0 (collapse_init h old cats m)"
  by (auto simp: collapse_inv_def collapse_init_def)

lemma collapse_inv_body:
  assumes inv: "collapse_inv h (set old) sel n st"
  shows "collapse_inv h (set old) sel (Suc n) (collapse_body h (collapse_parents h old) st)"
proof -
  let ?V = "set old"
  let ?P = "parents_to_remove st"
  let ?new = "[c \<leftarrow> nested st. parent_in h ?P c]"
  let ?st = "collapse_body h (collapse_parents h old) st"
  from inv have i1: "set (children st) = {x. nested_under h ?V sel n x}"
    and i2: "set (nested st) = {x \<in> ?V. cat (h x) \<noteq> None \<and> \<not> nested_under h ?V sel n x}"
    and i3: "\<And>x p. x \<in> ?V \<Longrightarrow> cat (h x) = Some p \<Longrightarrow> p \<in> removed st
               \<Longrightarrow> nested_under h ?V sel n x"
    and i4: "\<And>x p. x \<in> ?V \<Longrightarrow> cat (h x) = Some p \<Longrightarrow>
               (p \<in> ?P \<union> removed st \<longleftrightarrow> nested_under h ?V sel (Suc n) x)"
    unfolding collapse_inv_def by blast+
  have ch: "children ?st = children st @ ?new"
    and rm: "removed ?st = removed st \<union> ?P"
    and ne: "nested ?st = [c \<leftarrow> nested st. c \<notin> set (children st @ ?new)]"
    and pt: "parents_to_remove ?st
              = {c \<in> set (children st @ ?new). c \<in> collapse_parents h old - (removed st \<union> ?P)}"
    by (simp_all add: collapse_body_def Let_def)
  have new: "set ?new = {x. nested_under h ?V sel (Suc n) x \<and> \<not> nested_under h ?V sel n x}"
  proof (rule set_eqI, rule iffI)
    fix x assume "x \<in> set ?new"
    then have xn: "x \<in> set (nested st)" and pin: "parent_in h ?P x" by simp_all
    from xn i2 have xv: "x \<in> ?V" and nn: "\<not> nested_under h ?V sel n x" by auto
    from pin obtain p where p: "cat (h x) = Some p" "p \<in> ?P"
      by (auto simp: parent_in_def split: option.splits)
    with i4 [OF xv p(1)] have "nested_under h ?V sel (Suc n) x" by blast
    with nn show "x \<in> {x. nested_under h ?V sel (Suc n) x \<and> \<not> nested_under h ?V sel n x}"
      by blast
  next
    fix x assume "x \<in> {x. nested_under h ?V sel (Suc n) x \<and> \<not> nested_under h ?V sel n x}"
    then have s: "nested_under h ?V sel (Suc n) x" and nn: "\<not> nested_under h ?V sel n x"
      by blast+
    from s obtain p where xv: "x \<in> ?V" and p: "cat (h x) = Some p"
      by (auto split: option.splits)
    from i4 [OF xv p] s have "p \<in> ?P \<union> removed st" by blast
    moreover from i3 [OF xv p] nn have "p \<notin> removed st" by blast
    ultimately have "p \<in> ?P" by blast
    then have "parent_in h ?P x" by (simp add: parent_in_def p)
    moreover from xv p nn i2 have "x \<in> set (nested st)" by simp
    ultimately show "x \<in> set ?new" by simp
  qed
  have c1: "set (children ?st) = {x. nested_under h ?V sel (Suc n) x}"
    unfolding ch using i1 new nested_under_mono [of h ?V sel n] by auto
  have c2: "set (nested ?st)
              = {x \<in> ?V. cat (h x) \<noteq> None \<and> \<not> nested_under h ?V sel (Suc n) x}"
    unfolding ne using c1 [unfolded ch] i2 nested_under_mono [of h ?V sel n] by auto
  have c3: "nested_under h ?V sel (Suc n) x"
    if "x \<in> ?V" "cat (h x) = Some p" "p \<in> removed ?st" for x p
    using that i4 [of x p] unfolding rm by blast
  have c4: "(p \<in> parents_to_remove ?st \<union> removed ?st)
              = nested_under h ?V sel (Suc (Suc n)) x"
    if xv: "x \<in> ?V" and p: "cat (h x) = Some p" for x p
  proof -
    have par: "p \<in> collapse_parents h old"
      using xv p by (auto simp: collapse_parents_iff)
    have "(p \<in> parents_to_remove ?st \<union> removed ?st)
            \<longleftrightarrow> nested_under h ?V sel (Suc n) p \<or> p \<in> ?P \<union> removed st"
      unfolding pt rm using c1 [unfolded ch] par by auto
    also have "\<dots> \<longleftrightarrow> nested_under h ?V sel (Suc n) p \<or> nested_under h ?V sel (Suc n) x"
      using i4 [OF xv p] by simp
    also have "\<dots> \<longleftrightarrow> nested_under h ?V sel (Suc (Suc n)) x"
      using xv p nested_under_mono [of h ?V sel n p] by auto
    finally show ?thesis .
  qed
  show ?thesis
    unfolding collapse_inv_def using c1 c2 c3 c4 by blast
qed

lemma collapse_while_children:
  assumes "collapse_inv h (set old) sel n st"
    and "n + nat (nestedness st) = N"
  shows "set (children (collapse_while h (collapse_parents h old) st))
           = {x. nested_under h (set old) sel N x}"
  using assms
proof (induction h "collapse_parents h old" st arbitrary: n rule: collapse_while.induct)
  case (1 h st)
  let ?V = "set old"
  show ?case
  proof (cases "parents_to_remove st \<noteq> {} \<and> nestedness st > 0")
    case True
    then have eq: "collapse_while h (collapse_parents h old) st
        = collapse_while h (collapse_parents h old) (collapse_body h (collapse_parents h old) st)"
      by (subst collapse_while.simps) simp
    have "nestedness (collapse_body h (collapse_parents h old) st) = nestedness st - 1"
      by (simp add: collapse_body_def Let_def)
    moreover have "Suc (nat (nestedness st - 1)) = nat (nestedness st)"
      using True by linarith
    ultimately
    have n: "Suc n + nat (nestedness (collapse_body h (collapse_parents h old) st)) = N"
      using "1.prems"(2) by simp
    show ?thesis
      unfolding eq
      by (rule "1.hyps" [OF True collapse_inv_body [OF "1.prems"(1)] n])
  next
    case False
    then have eq: "collapse_while h (collapse_parents h old) st = st"
      by (subst collapse_while.simps) auto
    from "1.prems"(1) have i1: "set (children st) = {x. nested_under h ?V sel n x}"
      and i3: "\<And>x p. x \<in> ?V \<Longrightarrow> cat (h x) = Some p \<Longrightarrow> p \<in> removed st
               \<Longrightarrow> nested_under h ?V sel n x"
      and i4: "\<And>x p. x \<in> ?V \<Longrightarrow> cat (h x) = Some p \<Longrightarrow>
               (p \<in> parents_to_remove st \<union> removed st \<longleftrightarrow> nested_under h ?V sel (Suc n) x)"
      unfolding collapse_inv_def by blast+
    have "{x. nested_under h ?V sel N x} = {x. nested_under h ?V sel n x}"
    proof (cases "nestedness st > 0")
      case True
      with False have e: "parents_to_remove st = {}" by simp
      have st: "nested_under h ?V sel n x" if "nested_under h ?V sel (Suc n) x" for x
      proof -
        from that obtain p where xv: "x \<in> ?V" and p: "cat (h x) = Some p"
          by (auto split: option.splits)
        from i4 [OF xv p] that e have "p \<in> removed st" by simp
        then show ?thesis by (rule i3 [OF xv p])
      qed
      obtain k where k: "N = n + k" using "1.prems"(2) by (metis)
      have up: "nested_under h ?V sel n x \<Longrightarrow> nested_under h ?V sel (n + j) x" for x j
        by (induction j) (auto intro: nested_under_mono simp del: nested_under.simps)
      show ?thesis unfolding k
        using nested_under_stable [of h ?V sel n, OF st] up by blast
    next
      case False
      with "1.prems"(2) have "N = n" by simp
      then show ?thesis by simp
    qed
    with i1 show ?thesis unfolding eq by simp
  qed
qed

lemma collapse_result_children:
  "set (children (collapse_result h old cats m))
     = {x. nested_under h (set old) (set cats) (nat m) x}"
  unfolding collapse_result_def
  by (rule collapse_while_children [OF collapse_inv_init]) (simp add: collapse_init_def)



text \<open>
  Claim C8. The loop of \<^verbatim>\<open>collapse_nested\<close> always ends (\<open>collapse_while\<close> is a total
  function: \<^verbatim>\<open>nestedness\<close> decreases on each pass and the loop needs it positive), and
  it runs its body at most \<^verbatim>\<open>max_nestedness\<close> times (not at all when this is not
  positive), whatever the parent relation of the store, cyclic or not.
\<close>

theorem collapse_nested_bounded_passes:
  "int (passes (collapse_result h old cats max_nestedness)) \<le> max 0 max_nestedness"
  using collapse_while_passes
    [of h "collapse_parents h old" "collapse_init h old cats max_nestedness"]
  by (simp add: collapse_result_def collapse_init_def)

theorem collapse_nested_bounded_passes_witness:
  "int (passes (collapse_result heap_cyclic [1, 2] [1] 10)) \<le> max 0 10
   \<and> cat (heap_cyclic 1) = Some 2 \<and> cat (heap_cyclic 2) = Some 1
   \<and> set (children (collapse_result heap_cyclic [1, 2] [1] 10)) = {1, 2}"
proof -
  have "nested_under heap_cyclic {1, 2} {1} 10 x \<longleftrightarrow> x = 1 \<or> x = 2" for x
    by (auto simp: heap_cyclic_def eval_nat_numeral)
  then have "set (children (collapse_result heap_cyclic [1, 2] [1] 10)) = {1, 2}"
    unfolding collapse_result_children by auto
  then show ?thesis
    using collapse_nested_bounded_passes [of heap_cyclic "[1, 2]" "[1]" 10]
    by (simp add: heap_cyclic_def)
qed




subsection \<open>\<^verbatim>\<open>expand_nested\<close>\<close>

text \<open>
  When the labels of the children clash neither with each other nor with a label that
  is already shown, \<^verbatim>\<open>expand_nested\<close> puts the children, in the order of the parent's
  entries and labelled with the prefix, right after the first option that holds the
  selected catalog, and leaves every other option where it was.
\<close>

lemma insert_children_eq:
  "pos \<le> length old \<Longrightarrow> insert_children pos cs old = take pos old @ cs @ drop pos old"
proof (induction cs arbitrary: pos old)
  case Nil
  then show ?case by simp
next
  case (Cons c cs)
  have len: "Suc pos \<le> length (insert_at pos c old)"
    using Cons.prems by (simp add: insert_at_def)
  have "take (Suc pos) (insert_at pos c old) = take pos old @ [c]"
    and "drop (Suc pos) (insert_at pos c old) = drop pos old"
    using Cons.prems by (simp_all add: insert_at_def)
  with Cons.IH [OF len] show ?case by simp
qed

lemma find_value_index:
  "find (\<lambda>(k, v). v = got) old = Some (nm, g)
     \<Longrightarrow> g = got \<and> length (takeWhile (\<lambda>(k, v). v \<noteq> got) old) < length old
         \<and> old ! length (takeWhile (\<lambda>(k, v). v \<noteq> got) old) = (nm, got)"
  by (induction old) (auto split: if_splits)


lemma expand_nested_inserts_children:
  assumes ev: "new ev = got # rest"
    and fnd: "find (\<lambda>(k, v). v = got) (options s) = Some (nm, g)"
    and idx: "index = length (takeWhile (\<lambda>(k, v). v \<noteq> got) (options s))"
    and pre: "pre = (if contains right nm then split_head right nm @ down @ '' '' @ right
                     else right)"
    and kids: "kids = map (\<lambda>child. (pre @ '' '' @ name (h child), child)) (get_children h got)"
    and dist: "distinct (map fst (take (Suc index) (options s) @ kids
                                   @ drop (Suc index) (options s)))"
  shows "\<exists>s'. expand_nested h ev s = Inr s'
           \<and> options s' = take (Suc index) (options s) @ kids @ drop (Suc index) (options s)
           \<and> options s ! index = (nm, got)
           \<and> selected s' = selected s"
proof -
  from find_value_index [OF fnd] idx
  have lt: "index < length (options s)" and at: "options s ! index = (nm, got)"
    by simp_all
  have ins: "insert_children (Suc index) kids (options s)
               = take (Suc index) (options s) @ kids @ drop (Suc index) (options s)"
    using lt by (intro insert_children_eq) simp
  have "dict_of (insert_children (Suc index) kids (options s))
          = take (Suc index) (options s) @ kids @ drop (Suc index) (options s)"
    unfolding ins by (rule dict_of_distinct_id [OF dist])
  then show ?thesis
    using ev fnd at
    unfolding kids pre idx options_def
    by (simp add: expand_nested_def Let_def selected_def)
qed

text \<open>
  Claim C2. The widget shows \<open>A\<close>, its nested catalog under the label
  \<^verbatim>\<open>right\<close>\<open> sub\<close>, and \<open>B\<close>; the user selects \<open>B\<close>, whose nested catalog (object 4) is
  also named \<open>sub\<close>. The pair for the child is inserted after \<open>B\<close>, but its label is
  the one already shown under \<open>A\<close>, and \<^verbatim>\<open>dict(old)\<close> keeps one entry per label: the
  entry under \<open>A\<close> now holds \<open>B\<close>'s child in place of \<open>A\<close>'s, and no entry follows
  \<open>B\<close>.
\<close>

theorem expand_nested_label_clash:
  "options sel_expanded = [(''A'', 1), (right @ '' sub'', 3), (''B'', 2)]
   \<and> get_children heap0 2 = [4]
   \<and> name (heap0 4) = ''sub''
   \<and> expand_nested heap0 \<lparr>new = [2]\<rparr> sel_expanded
       = Inr \<lparr>widget = \<lparr>w_options = [(''A'', 1), (right @ '' sub'', 4), (''B'', 2)],
                        w_value = [2]\<rparr>,
              preprocess = None\<rparr>"
  by (simp add: expand_nested_def sel_expanded_def options_def get_children_def heap0_def
        right_def down_def Let_def insert_at_def dict_of_def dict_update_def)

subsection \<open>Notification\<close>









end
